theory Spec2Isabelle
  imports Main "HOL-Library.AList"
begin

section \<open>Text and character classes\<close>

text \<open>
  The parser works on Python \<open>str\<close> values. A string is modelled as a \<^typ>\<open>string\<close>,
  each \<^typ>\<open>char\<close> standing for one code point in the range 0..255. The three
  classifications the program relies on (\<open>str.strip\<close> and \<open>\s\<close>, \<open>\w\<close>,
  \<open>str.lower\<close>) are written out for that range as Python's Unicode tables have them;
  \<open>[A-Za-z]\<close> is ASCII by its own wording. Calls to \<open>logging\<close> only report and are
  left out.
\<close>

definition code :: "char \<Rightarrow> nat" where
  "code c = of_char c"

definition is_space :: "char \<Rightarrow> bool" where
  "is_space c = (let n = code c in
     (9 \<le> n \<and> n \<le> 13) \<or> (28 \<le> n \<and> n \<le> 32) \<or> n = 133 \<or> n = 160)"

definition is_letter :: "char \<Rightarrow> bool" where
  "is_letter c = (let n = code c in (65 \<le> n \<and> n \<le> 90) \<or> (97 \<le> n \<and> n \<le> 122))"

definition is_word :: "char \<Rightarrow> bool" where
  "is_word c = (let n = code c in
     (48 \<le> n \<and> n \<le> 57) \<or> (65 \<le> n \<and> n \<le> 90) \<or> n = 95 \<or> (97 \<le> n \<and> n \<le> 122) \<or>
     n = 170 \<or> n = 178 \<or> n = 179 \<or> n = 181 \<or> n = 185 \<or> n = 186 \<or>
     (188 \<le> n \<and> n \<le> 190) \<or> (192 \<le> n \<and> n \<le> 214) \<or> (216 \<le> n \<and> n \<le> 246) \<or>
     (248 \<le> n \<and> n \<le> 255))"

definition lower_char :: "char \<Rightarrow> char" where
  "lower_char c = (let n = code c in
     if (65 \<le> n \<and> n \<le> 90) \<or> (192 \<le> n \<and> n \<le> 214) \<or> (216 \<le> n \<and> n \<le> 222)
     then char_of (n + 32) else c)"

definition lower :: "string \<Rightarrow> string" where
  "lower s = map lower_char s"

definition strip :: "string \<Rightarrow> string" where
  "strip s = rev (dropWhile is_space (rev (dropWhile is_space s)))"

definition endswith :: "string \<Rightarrow> string \<Rightarrow> bool" where
  "endswith s suffix = (length suffix \<le> length s \<and> drop (length s - length suffix) s = suffix)"

section \<open>The chunk delimiter \<open>(@[A-Za-z]+{)\<close>\<close>

text \<open>
  \<open>match_delim s\<close> is \<open>pattern_chunk_split.match\<close> at the start of \<open>s\<close>: the matched
  token and the text after it. The greedy \<open>[A-Za-z]+\<close> takes the whole run of letters;
  giving a letter back would leave a letter where \<open>{\<close> is required, so backtracking
  finds nothing the longest run does not.
\<close>

definition match_delim :: "string \<Rightarrow> (string \<times> string) option" where
  "match_delim s =
     (case s of
        [] \<Rightarrow> None
      | c # t \<Rightarrow>
          if c \<noteq> CHR ''@'' then None
          else (let ls = takeWhile is_letter t; r = dropWhile is_letter t in
                case r of
                  [] \<Rightarrow> None
                | d # rest \<Rightarrow>
                    if ls \<noteq> [] \<and> d = CHR ''{'' then Some (c # ls @ [d], rest) else None))"

lemma match_delim_shorter:
  "match_delim s = Some (tok, rest) \<Longrightarrow> length rest < length s"
proof -
  assume m: "match_delim s = Some (tok, rest)"
  then obtain c t where s: "s = c # t"
    by (cases s) (auto simp: match_delim_def)
  from m s obtain d where "dropWhile is_letter t = d # rest"
    by (auto simp: match_delim_def Let_def split: if_splits list.splits)
  then have "length (d # rest) \<le> length t"
    by (metis length_dropWhile_le)
  with s show ?thesis by simp
qed

text \<open>
  \<open>re.split\<close> with the capturing pattern: the text before each match, then the matched
  token, and at the end the text after the last match. \<open>acc\<close> holds, reversed, the
  characters read since the last match.
\<close>

function re_split :: "string \<Rightarrow> string \<Rightarrow> string list" where
  "re_split acc [] = [rev acc]"
| "re_split acc (c # t) =
     (case match_delim (c # t) of
        Some (tok, rest) \<Rightarrow> rev acc # tok # re_split [] rest
      | None \<Rightarrow> re_split (c # acc) t)"
  by pat_completeness auto
termination
  by (relation "measure (\<lambda>(acc, s). length s)") (auto dest: match_delim_shorter)

section \<open>The default field pattern\<close>

text \<open>
  The default pattern of \<open>parse_metadata\<close> is
  \<^verbatim>\<open>(\w+)\s*=\s*(?:"([^"]*)"|\{([^\}]*)\}|(\w+))\<close>.
  \<open>match_field s\<close> is its match at the start of \<open>s\<close>: the four groups as
  \<open>re.findall\<close> reports them (a group that took no part is the empty string) and the
  text after the match. Each greedy repetition takes its longest run: a shorter key leaves
  a word character where white space or \<open>=\<close> must follow, fewer blanks leave a blank
  where \<open>=\<close>, a quote, a brace or a word character must follow, and a shorter quoted or
  braced body leaves a character that is not the closing one. The three alternatives start
  with different characters, so at most one of them applies.
\<close>

definition match_field :: "string \<Rightarrow> (string list \<times> string) option" where
  "match_field s =
     (let key = takeWhile is_word s in
      if key = [] then None
      else (case dropWhile is_space (dropWhile is_word s) of
              [] \<Rightarrow> None
            | e # r1 \<Rightarrow>
                if e \<noteq> CHR ''='' then None
                else (case dropWhile is_space r1 of
                        [] \<Rightarrow> None
                      | d # r2 \<Rightarrow>
                          if d = CHR 0x22 then
                            (case dropWhile (\<lambda>x. x \<noteq> CHR 0x22) r2 of
                               [] \<Rightarrow> None
                             | q # r3 \<Rightarrow> Some ([key, takeWhile (\<lambda>x. x \<noteq> CHR 0x22) r2, [], []], r3))
                          else if d = CHR ''{'' then
                            (case dropWhile (\<lambda>x. x \<noteq> CHR ''}'') r2 of
                               [] \<Rightarrow> None
                             | q # r3 \<Rightarrow> Some ([key, [], takeWhile (\<lambda>x. x \<noteq> CHR ''}'') r2, []], r3))
                          else if is_word d then
                            Some ([key, [], [], takeWhile is_word (d # r2)], dropWhile is_word (d # r2))
                          else None)))"

lemma match_field_shorter:
  assumes "match_field s = Some (gs, rest)"
  shows "length rest < length s"
proof -
  from assms have key: "takeWhile is_word s \<noteq> []"
    by (auto simp: match_field_def Let_def split: if_splits)
  from assms key obtain r1 where
    r1: "dropWhile is_space (dropWhile is_word s) = CHR ''='' # r1"
    by (auto simp: match_field_def Let_def split: if_splits list.splits)
  have "length (CHR ''='' # r1) \<le> length (dropWhile is_word s)"
    unfolding r1 [symmetric] by (rule length_dropWhile_le)
  also have "\<dots> \<le> length s" by (rule length_dropWhile_le)
  finally have l1: "length r1 < length s" by simp
  from assms key r1 obtain d r2 where
    r2: "dropWhile is_space r1 = d # r2"
    by (auto simp: match_field_def Let_def split: if_splits list.splits)
  have "length (d # r2) \<le> length r1"
    unfolding r2 [symmetric] by (rule length_dropWhile_le)
  then have l2: "length r2 < length r1" by simp
  have "length (dropWhile (\<lambda>x. x \<noteq> CHR 0x22) r2) \<le> length r2"
    and "length (dropWhile (\<lambda>x. x \<noteq> CHR ''}'') r2) \<le> length r2"
    and "length (dropWhile is_word (d # r2)) \<le> length (d # r2)"
    by (rule length_dropWhile_le)+
  with assms key r1 r2 l1 l2 show ?thesis
    by (auto simp: match_field_def Let_def split: if_splits list.splits)
qed

text \<open>
  \<open>re.findall\<close> with the default pattern: scan from the left, take a match where one
  starts, go on behind it; where none starts, move one character on. A match is never
  empty, since the key is not.
\<close>

function findall_default :: "string \<Rightarrow> string list list" where
  "findall_default [] = []"
| "findall_default (c # t) =
     (case match_field (c # t) of
        Some (gs, rest) \<Rightarrow> gs # findall_default rest
      | None \<Rightarrow> findall_default t)"
  by pat_completeness auto
termination
  by (relation "measure length") (auto dest: match_field_shorter)

section \<open>The parser object\<close>

text \<open>
  Python exceptions are values. A record value is a string or \<open>None\<close>; a record is a
  \<open>dict\<close>, kept as an association list in insertion order (assigning to a key that is
  present keeps its place, as \<^const>\<open>AList.update\<close> does); an element of
  \<open>parsed_entries\<close> is a record or \<open>None\<close>.
\<close>

datatype exn = AttributeError | ValueError | TypeError | IndexError

datatype pyval = Str string | PyNone

type_synonym pydict = "(string \<times> pyval) list"

type_synonym entry = "pydict option"

record bibtexParser =
  file_path :: string
  bibtex_string :: "string option"
  metadata_entries :: "string list"
  parsed_entries :: "entry list"

text \<open>
  What lies outside the program: the file system as \<open>os.path.exists\<close> and
  \<open>open(...).read()\<close> see it, \<open>requests.head(url, allow_redirects=True).url\<close>
  (\<open>None\<close> when the call raises), and \<open>json.dumps(..., indent=4)\<close>.
\<close>

datatype disk_file = Missing | Unreadable | Contents string

record env =
  files :: "string \<Rightarrow> disk_file"
  requests_head :: "string \<Rightarrow> string option"
  json_dumps :: "entry list \<Rightarrow> string"

text \<open>
  A field pattern is represented by what \<open>re.findall\<close> does with it on a metadata
  string: \<open>None\<close> when it raises \<open>re.error\<close>, otherwise the list of matches, each the
  sequence of items that iterating over the match yields.
\<close>

type_synonym pattern = "string \<Rightarrow> string list list option"

definition default_pattern :: pattern where
  "default_pattern metadata = Some (findall_default metadata)"

definition bibtexParser_init :: "string \<Rightarrow> bibtexParser" where
  "bibtexParser_init path =
     \<lparr>file_path = path, bibtex_string = None, metadata_entries = [], parsed_entries = []\<rparr>"

definition read_bibtex_file :: "env \<Rightarrow> bibtexParser \<Rightarrow> bibtexParser" where
  "read_bibtex_file e s =
     (if \<not> endswith (file_path s) ''.bib'' then s
      else (case files e (file_path s) of
              Missing \<Rightarrow> s
            | Unreadable \<Rightarrow> s
            | Contents text \<Rightarrow> s\<lparr>bibtex_string := Some text\<rparr>))"

text \<open>
  The private methods \<open>_extract_entry_metadata\<close>, \<open>_parse_metadata\<close> and
  \<open>_get_url_from_doi\<close> carry the prefix \<open>u_\<close> for their leading underscore.
\<close>

definition u_extract_entry_metadata :: "string \<Rightarrow> string option" where
  "u_extract_entry_metadata chunk =
     (let chunk = strip chunk in
      if chunk \<noteq> [] \<and> hd chunk \<noteq> CHR ''@'' then Some chunk else None)"

definition keep_metadata :: "string \<Rightarrow> string list \<Rightarrow> string list" where
  "keep_metadata chunk entries =
     (case u_extract_entry_metadata chunk of
        Some metadata \<Rightarrow> if metadata \<noteq> [] then entries @ [metadata] else entries
      | None \<Rightarrow> entries)"

text \<open>
  A method that may raise returns the exception, if any, beside the object as it is at
  that moment. \<open>None.strip()\<close> is an \<open>AttributeError\<close>; the compiled chunk pattern is
  valid, so \<open>re.split\<close> raises no \<open>re.error\<close>.
\<close>

definition extract_metadata :: "bibtexParser \<Rightarrow> exn option \<times> bibtexParser" where
  "extract_metadata s =
     (case bibtex_string s of
        None \<Rightarrow> (Some AttributeError, s)
      | Some text \<Rightarrow>
          (None, s\<lparr>metadata_entries :=
                     fold keep_metadata (re_split [] (strip text)) (metadata_entries s)\<rparr>))"

text \<open>
  The dict comprehension \<open>{key.lower(): value for key, value in matches}\<close>: a match
  that is not a pair cannot be unpacked, which is a \<open>ValueError\<close>.
\<close>

fun dict_comprehension :: "string list list \<Rightarrow> pydict \<Rightarrow> exn + pydict" where
  "dict_comprehension [] d = Inr d"
| "dict_comprehension (m # ms) d =
     (case m of
        [key, val] \<Rightarrow> dict_comprehension ms (AList.update (lower key) (Str val) d)
      | _ \<Rightarrow> Inl ValueError)"

definition u_parse_metadata :: "string \<Rightarrow> pattern \<Rightarrow> exn + entry" where
  "u_parse_metadata metadata pattern =
     (case pattern metadata of
        None \<Rightarrow> Inr None
      | Some matches \<Rightarrow>
          (case dict_comprehension (map (filter (\<lambda>x. x \<noteq> [])) matches) [] of
             Inl err \<Rightarrow> Inl err
           | Inr parsed_data \<Rightarrow> Inr (Some parsed_data)))"

text \<open>
  The argument \<open>pattern\<close> of \<open>parse_metadata\<close> is \<open>None\<close> (or empty) for the
  default pattern, or a pattern of the caller. The loop appends one result for each
  chunk and stops where \<open>_parse_metadata\<close> raises.
\<close>

fun parse_metadata_loop :: "pattern \<Rightarrow> string list \<Rightarrow> bibtexParser \<Rightarrow> exn option \<times> bibtexParser" where
  "parse_metadata_loop p [] s = (None, s)"
| "parse_metadata_loop p (metadata # rest) s =
     (case u_parse_metadata metadata p of
        Inl err \<Rightarrow> (Some err, s)
      | Inr parsed_data \<Rightarrow>
          parse_metadata_loop p rest (s\<lparr>parsed_entries := parsed_entries s @ [parsed_data]\<rparr>))"

definition parse_metadata :: "pattern option \<Rightarrow> bibtexParser \<Rightarrow> exn option \<times> bibtexParser" where
  "parse_metadata pattern s =
     (let p = (case pattern of None \<Rightarrow> default_pattern | Some q \<Rightarrow> q)
      in parse_metadata_loop p (metadata_entries s) s)"

definition u_get_url_from_doi :: "env \<Rightarrow> pyval \<Rightarrow> pyval" where
  "u_get_url_from_doi e doi =
     (case doi of
        PyNone \<Rightarrow> PyNone
      | Str d \<Rightarrow>
          (case requests_head e (''http://dx.doi.org/'' @ d) of
             None \<Rightarrow> PyNone
           | Some url \<Rightarrow> Str url))"

text \<open>\<open>entries[idx][key] = v\<close>.\<close>

definition setitem :: "nat \<Rightarrow> string \<Rightarrow> pyval \<Rightarrow> entry list \<Rightarrow> exn + entry list" where
  "setitem idx key v entries =
     (if idx < length entries then
        (case entries ! idx of
           None \<Rightarrow> Inl TypeError
         | Some d \<Rightarrow> Inr (entries[idx := Some (AList.update key v d)]))
      else Inl IndexError)"

text \<open>
  The loop of \<open>add_urls_from_doi\<close> over \<open>enumerate(self.parsed_entries)\<close>. The records
  are distinct objects, as \<open>parse_metadata\<close> creates them, so that an assignment through
  index \<open>idx\<close> changes the record at \<open>idx\<close> only.
\<close>

fun add_urls_loop :: "env \<Rightarrow> (nat \<times> entry) list \<Rightarrow> bibtexParser \<Rightarrow> exn option \<times> bibtexParser" where
  "add_urls_loop e [] s = (None, s)"
| "add_urls_loop e ((idx, entry) # rest) s =
     (case entry of
        None \<Rightarrow> (Some TypeError, s)
      | Some d \<Rightarrow>
          (case map_of d ''doi'' of
             None \<Rightarrow> add_urls_loop e rest s
           | Some doi \<Rightarrow>
               (let url = u_get_url_from_doi e doi in
                case setitem idx ''doi_url'' url (parsed_entries s) of
                  Inl err \<Rightarrow> (Some err, s)
                | Inr es1 \<Rightarrow>
                    (case setitem idx ''url'' url es1 of
                       Inl err \<Rightarrow> (Some err, s\<lparr>parsed_entries := es1\<rparr>)
                     | Inr es2 \<Rightarrow> add_urls_loop e rest (s\<lparr>parsed_entries := es2\<rparr>)))))"

definition add_urls_from_doi :: "env \<Rightarrow> bibtexParser \<Rightarrow> exn option \<times> bibtexParser" where
  "add_urls_from_doi e s = add_urls_loop e (List.enumerate 0 (parsed_entries s)) s"

definition extract_parsed_entries :: "env \<Rightarrow> bibtexParser \<Rightarrow> string" where
  "extract_parsed_entries e s = json_dumps e (parsed_entries s)"

text \<open>
  \<open>parse_bibtex\<close> returns a list or \<open>None\<close>; every exception of a stage is caught and
  the call then returns \<open>None\<close>. With \<open>json=True\<close> the string is built and the method
  ends without a \<open>return\<close>.
\<close>

definition parse_bibtex :: "env \<Rightarrow> bool \<Rightarrow> bibtexParser \<Rightarrow> entry list option \<times> bibtexParser" where
  "parse_bibtex e json s =
     (let s1 = read_bibtex_file e s in
      case extract_metadata s1 of
        (Some err, s2) \<Rightarrow> (None, s2)
      | (None, s2) \<Rightarrow>
          (case parse_metadata None s2 of
             (Some err, s3) \<Rightarrow> (None, s3)
           | (None, s3) \<Rightarrow>
               (case add_urls_from_doi e s3 of
                  (Some err, s4) \<Rightarrow> (None, s4)
                | (None, s4) \<Rightarrow>
                    if json then (let discarded = extract_parsed_entries e s4 in (None, s4))
                    else (Some (parsed_entries s4), s4))))"

section \<open>Notions used in the statements\<close>

text \<open>
  An entry delimiter is \<open>@\<close>, one or more ASCII letters, and \<open>{\<close>; a text contains one
  when one occurs in it at some place. \<open>has_delim\<close> decides the same by trying
  \<^const>\<open>match_delim\<close> at every position.
\<close>

definition delimiter :: "string \<Rightarrow> bool" where
  "delimiter tok = (\<exists>ls. ls \<noteq> [] \<and> (\<forall>c\<in>set ls. is_letter c) \<and> tok = CHR ''@'' # ls @ ''{'')"

definition contains_delimiter :: "string \<Rightarrow> bool" where
  "contains_delimiter text = (\<exists>pre tok post. delimiter tok \<and> text = pre @ tok @ post)"

fun has_delim :: "string \<Rightarrow> bool" where
  "has_delim [] = False"
| "has_delim (c # t) = (match_delim (c # t) \<noteq> None \<or> has_delim t)"

text \<open>
  A text of entries: each entry is its type and its body, written \<open>@type{body\<close>. An
  entry is well formed when the type is one or more letters and the body holds no further
  delimiter and, trimmed, is not empty and does not begin with \<open>@\<close>.
\<close>

definition entry_text :: "string \<times> string \<Rightarrow> string" where
  "entry_text e = CHR ''@'' # fst e @ ''{'' @ snd e"

definition well_formed_entry :: "string \<times> string \<Rightarrow> bool" where
  "well_formed_entry e =
     (fst e \<noteq> [] \<and> (\<forall>c\<in>set (fst e). is_letter c) \<and> \<not> contains_delimiter (snd e) \<and>
      strip (snd e) \<noteq> [] \<and> hd (strip (snd e)) \<noteq> CHR ''@'')"

text \<open>
  A chunk unpacks under a pattern when \<open>re.findall\<close> raises \<open>re.error\<close> or every
  match, once its empty items are dropped, is a pair, as the dict comprehension needs.
\<close>

definition unpacks :: "pattern \<Rightarrow> string \<Rightarrow> bool" where
  "unpacks p metadata =
     (case p metadata of
        None \<Rightarrow> True
      | Some matches \<Rightarrow> list_all (\<lambda>m. length (filter (\<lambda>x. x \<noteq> []) m) = 2) matches)"

text \<open>
  What one pass of the loop of \<open>add_urls_from_doi\<close> makes of a record: unchanged without
  a \<open>doi\<close> key, otherwise with \<open>doi_url\<close> and \<open>url\<close> set to the result of the lookup.
\<close>

definition with_urls :: "env \<Rightarrow> pydict \<Rightarrow> pydict" where
  "with_urls e d =
     (case map_of d ''doi'' of
        None \<Rightarrow> d
      | Some doi \<Rightarrow>
          AList.update ''url'' (u_get_url_from_doi e doi)
            (AList.update ''doi_url'' (u_get_url_from_doi e doi) d))"

text \<open>
  The chunks that \<open>extract_metadata\<close> appends for a text, and what the loop of
  \<open>parse_metadata\<close> does with a list of chunks: the exception that ends it, if any, and
  the records appended until then.
\<close>

definition chunks :: "string \<Rightarrow> string list" where
  "chunks text =
     map strip (filter (\<lambda>seg. strip seg \<noteq> [] \<and> hd (strip seg) \<noteq> CHR ''@'')
                       (re_split [] (strip text)))"

fun parse_all :: "pattern \<Rightarrow> string list \<Rightarrow> exn option \<times> entry list" where
  "parse_all p [] = (None, [])"
| "parse_all p (m # ms) =
     (case u_parse_metadata m p of
        Inl err \<Rightarrow> (Some err, [])
      | Inr q \<Rightarrow> (case parse_all p ms of (r, qs) \<Rightarrow> (r, q # qs)))"

section \<open>Properties\<close>

subsection \<open>Trimming\<close>

lemma strip_Nil: "strip [] = []"
  by (simp add: strip_def)

lemma strip_decomp:
  assumes "\<forall>c\<in>set w1. is_space c" and "\<forall>c\<in>set w2. is_space c"
    and "m \<noteq> []" and "\<not> is_space (hd m)" and "\<not> is_space (last m)"
  shows "strip (w1 @ m @ w2) = m"
proof -
  from assms(3,4) have "dropWhile is_space m = m"
    by (cases m) simp_all
  with assms(1) have a: "dropWhile is_space (w1 @ m @ w2) = m @ w2"
    using assms(3,4) by (cases m) simp_all
  from assms(3,5) have "dropWhile is_space (rev m) = rev m"
    by (cases m rule: rev_cases) simp_all
  moreover from assms(2) have "dropWhile is_space (rev w2 @ rev m) = dropWhile is_space (rev m)"
    by (intro dropWhile_append2) simp
  ultimately have "dropWhile is_space (rev w2 @ rev m) = rev m" by simp
  with a show ?thesis by (simp add: strip_def)
qed

lemma lstrip_eq:
  "dropWhile is_space t = strip t @ rev (takeWhile is_space (rev (dropWhile is_space t)))"
proof -
  let ?u = "dropWhile is_space t"
  have "rev (dropWhile is_space (rev ?u)) @ rev (takeWhile is_space (rev ?u)) =
          rev (takeWhile is_space (rev ?u) @ dropWhile is_space (rev ?u))"
    by (simp only: rev_append)
  also have "\<dots> = ?u" by simp
  finally show ?thesis by (simp add: strip_def)
qed

lemma strip_parts:
  "\<exists>w1 w2. t = w1 @ strip t @ w2 \<and> (\<forall>c\<in>set w1. is_space c) \<and> (\<forall>c\<in>set w2. is_space c)"
proof -
  let ?u = "dropWhile is_space t"
  let ?w1 = "takeWhile is_space t"
  let ?w2 = "rev (takeWhile is_space (rev ?u))"
  have "t = ?w1 @ ?u" by simp
  then have "t = ?w1 @ strip t @ ?w2" using lstrip_eq [of t] by metis
  moreover have "\<forall>c\<in>set ?w1. is_space c" by (auto dest: set_takeWhileD)
  moreover have "\<forall>c\<in>set ?w2. is_space c" by (auto dest: set_takeWhileD)
  ultimately show ?thesis by blast
qed

lemma strip_ends:
  assumes "strip t \<noteq> []"
  shows "\<not> is_space (hd (strip t)) \<and> \<not> is_space (last (strip t))"
proof -
  let ?u = "dropWhile is_space t"
  from assms have ne: "dropWhile is_space (rev ?u) \<noteq> []" by (simp add: strip_def)
  then have "\<not> is_space (hd (dropWhile is_space (rev ?u)))" by (rule hd_dropWhile)
  with ne have l: "\<not> is_space (last (strip t))"
    by (simp add: strip_def last_rev)
  have "?u \<noteq> []"
  proof
    assume "?u = []"
    with ne show False by simp
  qed
  then have h: "\<not> is_space (hd ?u)" by (rule hd_dropWhile)
  from assms have "hd (strip t @ rev (takeWhile is_space (rev ?u))) = hd (strip t)"
    by simp
  then have "hd ?u = hd (strip t)" using lstrip_eq [of t] by simp
  with h l show ?thesis by simp
qed

lemma strip_idem: "strip (strip t) = strip t"
proof (cases "strip t = []")
  case True
  then show ?thesis by (simp add: strip_Nil)
next
  case False
  then have "\<not> is_space (hd (strip t))" "\<not> is_space (last (strip t))"
    using strip_ends by blast+
  with False have "strip ([] @ strip t @ []) = strip t"
    by (intro strip_decomp) simp_all
  then show ?thesis by simp
qed

subsection \<open>Delimiters and splitting\<close>

lemma special_chars:
  "\<not> is_letter CHR ''{''" "\<not> is_letter CHR ''@''" "\<not> is_space CHR ''@''" "\<not> is_space CHR ''{''"
  by (simp_all add: is_letter_def is_space_def code_def)

lemma match_delim_iff:
  "match_delim s = Some (tok, rest) \<longleftrightarrow> (delimiter tok \<and> s = tok @ rest)"
proof
  assume m: "match_delim s = Some (tok, rest)"
  then obtain t where s: "s = CHR ''@'' # t"
    by (cases s) (auto simp: match_delim_def split: if_splits)
  let ?ls = "takeWhile is_letter t"
  from m s have d: "dropWhile is_letter t = CHR ''{'' # rest" and ne: "?ls \<noteq> []"
    and tok: "tok = CHR ''@'' # ?ls @ ''{''"
    by (auto simp: match_delim_def Let_def split: if_splits list.splits)
  have "t = ?ls @ dropWhile is_letter t" by simp
  with d have t: "t = ?ls @ CHR ''{'' # rest" by simp
  have "\<forall>c\<in>set ?ls. is_letter c" by (auto dest: set_takeWhileD)
  with ne tok have "delimiter tok" unfolding delimiter_def by blast
  moreover from s t tok have "s = tok @ rest" by simp
  ultimately show "delimiter tok \<and> s = tok @ rest" ..
next
  assume "delimiter tok \<and> s = tok @ rest"
  then obtain ls where ne: "ls \<noteq> []" and ls: "\<forall>c\<in>set ls. is_letter c"
    and tok: "tok = CHR ''@'' # ls @ ''{''" and s: "s = tok @ rest"
    unfolding delimiter_def by blast
  from ls have "takeWhile is_letter (ls @ CHR ''{'' # rest) = ls"
    by (simp add: special_chars)
  moreover from ls have "dropWhile is_letter (ls @ CHR ''{'' # rest) = CHR ''{'' # rest"
    by (simp add: special_chars)
  ultimately show "match_delim s = Some (tok, rest)"
    using ne tok s by (simp add: match_delim_def)
qed

lemma has_delim_iff: "has_delim s \<longleftrightarrow> contains_delimiter s"
proof (induction s)
  case Nil
  show ?case by (simp add: contains_delimiter_def delimiter_def)
next
  case (Cons c t)
  show ?case
  proof
    assume "has_delim (c # t)"
    then consider "match_delim (c # t) \<noteq> None" | "has_delim t" by auto
    then show "contains_delimiter (c # t)"
    proof cases
      case 1
      then obtain tok rest where "match_delim (c # t) = Some (tok, rest)" by auto
      then have "delimiter tok" "c # t = [] @ tok @ rest" by (simp_all add: match_delim_iff)
      then show ?thesis unfolding contains_delimiter_def by blast
    next
      case 2
      with Cons.IH obtain pre tok post where "delimiter tok" "t = pre @ tok @ post"
        unfolding contains_delimiter_def by blast
      then have "delimiter tok" "c # t = (c # pre) @ tok @ post" by simp_all
      then show ?thesis unfolding contains_delimiter_def by blast
    qed
  next
    assume "contains_delimiter (c # t)"
    then obtain pre tok post where d: "delimiter tok" and e: "c # t = pre @ tok @ post"
      unfolding contains_delimiter_def by blast
    show "has_delim (c # t)"
    proof (cases pre)
      case Nil
      with d e have "match_delim (c # t) = Some (tok, post)" by (simp add: match_delim_iff)
      then show ?thesis by simp
    next
      case (Cons a pre')
      with e have "t = pre' @ tok @ post" by simp
      with d have "contains_delimiter t" unfolding contains_delimiter_def by blast
      with Cons.IH show ?thesis by simp
    qed
  qed
qed

lemma re_split_no_delim: "\<not> has_delim s \<Longrightarrow> re_split acc s = [rev acc @ s]"
  by (induction s arbitrary: acc) (auto split: option.splits)

lemma contains_delimiter_strip:
  "contains_delimiter (strip t) \<Longrightarrow> contains_delimiter t"
proof -
  assume "contains_delimiter (strip t)"
  then obtain pre tok post where d: "delimiter tok" and e: "strip t = pre @ tok @ post"
    unfolding contains_delimiter_def by blast
  obtain a b where "t = a @ strip t @ b" using strip_parts by blast
  with e have "t = (a @ pre) @ tok @ (post @ b)" by simp
  with d show ?thesis unfolding contains_delimiter_def by blast
qed

lemma keep_metadata_eq:
  "keep_metadata seg acc = acc @ (if strip seg \<noteq> [] \<and> hd (strip seg) \<noteq> CHR ''@'' then [strip seg] else [])"
  by (simp add: keep_metadata_def u_extract_entry_metadata_def Let_def)

lemma fold_keep_metadata:
  "fold keep_metadata segs acc =
     acc @ map strip (filter (\<lambda>seg. strip seg \<noteq> [] \<and> hd (strip seg) \<noteq> CHR ''@'') segs)"
  by (induction segs arbitrary: acc) (simp_all add: keep_metadata_eq)

lemma match_delim_Cons:
  "match_delim (c # t) =
     (if c \<noteq> CHR ''@'' then None
      else case dropWhile is_letter t of
             [] \<Rightarrow> None
           | d # rest \<Rightarrow>
               if takeWhile is_letter t \<noteq> [] \<and> d = CHR ''{''
               then Some (c # takeWhile is_letter t @ [d], rest) else None)"
  by (simp add: match_delim_def Let_def)

lemma match_delim_no_span:
  assumes "match_delim u = None" and "u \<noteq> []" and "r = [] \<or> hd r = CHR ''@''"
  shows "match_delim (u @ r) = None"
proof -
  from assms(2) obtain c t where u: "u = c # t" by (cases u) auto
  show ?thesis
  proof (cases "c = CHR ''@''")
    case False
    with u show ?thesis by (simp add: match_delim_def)
  next
    case True
    show ?thesis
    proof (cases "\<forall>x\<in>set t. is_letter x")
      case all: True
      then have tw: "takeWhile is_letter (t @ r) = t @ takeWhile is_letter r"
        and dw: "dropWhile is_letter (t @ r) = dropWhile is_letter r"
        by simp_all
      from assms(3) have "dropWhile is_letter r = r"
        by (cases r) (auto simp: special_chars)
      with dw have dwr: "dropWhile is_letter (t @ r) = r" by simp
      show ?thesis
      proof (cases r)
        case Nil
        show ?thesis unfolding u append_Cons match_delim_Cons dwr
          using Nil by simp
      next
        case (Cons d r')
        with assms(3) have "d \<noteq> CHR ''{''" by simp
        with Cons show ?thesis unfolding u append_Cons match_delim_Cons dwr
          by simp
      qed
    next
      case False
      then obtain x where "x \<in> set t" "\<not> is_letter x" by blast
      then have "takeWhile is_letter (t @ r) = takeWhile is_letter t"
        and "dropWhile is_letter (t @ r) = dropWhile is_letter t @ r"
        and "dropWhile is_letter t \<noteq> []"
        by auto
      with assms(1) u True show ?thesis
        by (auto simp: match_delim_def Let_def split: list.splits if_splits)
    qed
  qed
qed

lemma re_split_scan:
  "\<not> has_delim b \<Longrightarrow> r = [] \<or> hd r = CHR ''@'' \<Longrightarrow>
     re_split acc (b @ r) = re_split (rev b @ acc) r"
proof (induction b arbitrary: acc)
  case Nil
  show ?case by simp
next
  case (Cons c t)
  from Cons.prems(1) have n: "match_delim (c # t) = None" and t: "\<not> has_delim t"
    using has_delim.simps(2) by blast+
  from n Cons.prems(2) have "match_delim ((c # t) @ r) = None"
    by (intro match_delim_no_span) simp_all
  then have "re_split acc ((c # t) @ r) = re_split (c # acc) (t @ r)" by simp
  also have "\<dots> = re_split (rev t @ c # acc) r"
    using t Cons.prems(2) by (rule Cons.IH)
  finally show ?case by simp
qed

lemma re_split_entries:
  assumes "\<forall>e\<in>set es. fst e \<noteq> [] \<and> (\<forall>c\<in>set (fst e). is_letter c) \<and> \<not> has_delim (snd e)"
    and "\<not> has_delim b"
  shows "re_split acc (b @ concat (map entry_text es)) =
           (rev acc @ b) # concat (map (\<lambda>e. [CHR ''@'' # fst e @ ''{'', snd e]) es)"
  using assms
proof (induction es arbitrary: acc b)
  case Nil
  then show ?case by (simp add: re_split_no_delim)
next
  case (Cons e es)
  let ?rest = "concat (map entry_text es)"
  let ?tok = "CHR ''@'' # fst e @ ''{''"
  let ?r = "entry_text e @ ?rest"
  from Cons.prems(1) have e: "fst e \<noteq> []" "\<forall>c\<in>set (fst e). is_letter c" "\<not> has_delim (snd e)"
    and es: "\<forall>e\<in>set es. fst e \<noteq> [] \<and> (\<forall>c\<in>set (fst e). is_letter c) \<and> \<not> has_delim (snd e)"
    by simp_all
  have r: "?r = ?tok @ snd e @ ?rest" by (simp add: entry_text_def)
  from e have "delimiter ?tok" unfolding delimiter_def by blast
  with r have m: "match_delim ?r = Some (?tok, snd e @ ?rest)"
    by (simp only: match_delim_iff)
  have hd: "?r = [] \<or> hd ?r = CHR ''@''" by (simp add: entry_text_def)
  have "re_split acc (b @ ?r) = re_split (rev b @ acc) ?r"
    using Cons.prems(2) hd by (rule re_split_scan)
  also have "\<dots> = rev (rev b @ acc) # ?tok # re_split [] (snd e @ ?rest)"
  proof -
    obtain c t where ct: "?r = c # t" by (simp add: entry_text_def)
    with m show ?thesis by simp
  qed
  also have "re_split [] (snd e @ ?rest) =
      (rev [] @ snd e) # concat (map (\<lambda>e. [CHR ''@'' # fst e @ ''{'', snd e]) es)"
    using es e(3) by (rule Cons.IH)
  finally show ?case by simp
qed

lemma strip_delimiter:
  assumes "\<forall>c\<in>set ty. is_letter c"
  shows "strip (CHR ''@'' # ty @ ''{'') = CHR ''@'' # ty @ ''{''"
proof -
  have "strip ([] @ (CHR ''@'' # ty @ ''{'') @ []) = CHR ''@'' # ty @ ''{''"
    by (rule strip_decomp) (simp_all add: special_chars)
  then show ?thesis by simp
qed

lemma kept_entries:
  assumes "\<forall>e\<in>set es. (\<forall>c\<in>set (fst e). is_letter c) \<and> strip (snd e) \<noteq> [] \<and>
             hd (strip (snd e)) \<noteq> CHR ''@''"
  shows "map strip (filter (\<lambda>seg. strip seg \<noteq> [] \<and> hd (strip seg) \<noteq> CHR ''@'')
           (concat (map (\<lambda>e. [CHR ''@'' # fst e @ ''{'', snd e]) es))) =
         map (\<lambda>e. strip (snd e)) es"
  using assms by (induction es) (simp_all add: strip_delimiter)

lemma strip_padded_entries:
  assumes pre: "\<forall>c\<in>set pre. is_space c" and post: "\<forall>c\<in>set post. is_space c"
    and body: "strip body \<noteq> []"
  shows "\<exists>w. (\<forall>c\<in>set w. is_space c) \<and>
           strip (pre @ concat (map entry_text (es @ [(ty, body)])) @ post) =
             concat (map entry_text (es @ [(ty, w @ strip body)])) \<and>
           (\<exists>w2. body = w @ strip body @ w2)"
proof -
  obtain w1 w2 where b: "body = w1 @ strip body @ w2" and w1: "\<forall>c\<in>set w1. is_space c"
    and w2: "\<forall>c\<in>set w2. is_space c"
    using strip_parts by blast
  let ?m = "strip body"
  let ?M = "concat (map entry_text (es @ [(ty, w1 @ ?m)]))"
  from body have ends: "\<not> is_space (hd ?m)" "\<not> is_space (last ?m)"
    using strip_ends by blast+
  have M: "?M = concat (map entry_text es) @ CHR ''@'' # ty @ ''{'' @ w1 @ ?m"
    by (simp add: entry_text_def)
  have ne: "?M \<noteq> []" by (simp add: entry_text_def)
  have "hd ?M = CHR ''@''"
    by (cases es) (simp_all add: entry_text_def)
  then have h: "\<not> is_space (hd ?M)" by (simp add: special_chars)
  from body have "last ?M = last ?m" unfolding M by simp
  with ends have l: "\<not> is_space (last ?M)" by simp
  from w2 post have sp: "\<forall>c\<in>set (w2 @ post). is_space c" by auto
  have "pre @ concat (map entry_text (es @ [(ty, body)])) @ post = pre @ ?M @ (w2 @ post)"
    using b by (simp add: entry_text_def)
  moreover have "strip (pre @ ?M @ (w2 @ post)) = ?M"
    using pre sp ne h l by (rule strip_decomp)
  ultimately have "strip (pre @ concat (map entry_text (es @ [(ty, body)])) @ post) = ?M"
    by simp
  with w1 b show ?thesis by blast
qed

subsection \<open>Fields, records and the loops\<close>

lemma match_field_groups:
  assumes "match_field s = Some (gs, rest)"
  shows "\<exists>key v. key \<noteq> [] \<and>
           (gs = [key, v, [], []] \<or> gs = [key, [], v, []] \<or> (gs = [key, [], [], v] \<and> v \<noteq> []))"
  using assms
  by (auto simp: match_field_def Let_def split: if_splits list.splits)

lemma findall_default_groups:
  "m \<in> set (findall_default s) \<Longrightarrow>
     \<exists>key v. key \<noteq> [] \<and>
       (m = [key, v, [], []] \<or> m = [key, [], v, []] \<or> (m = [key, [], [], v] \<and> v \<noteq> []))"
proof (induction s rule: findall_default.induct)
  case 1
  then show ?case by simp
next
  case (2 c t)
  show ?case
  proof (cases "match_field (c # t)")
    case None
    with 2 show ?thesis by simp
  next
    case (Some a)
    obtain gs rest where a: "a = (gs, rest)" by (cases a)
    with Some 2 have "m = gs \<or> m \<in> set (findall_default rest)" by auto
    then show ?thesis
    proof
      assume "m = gs"
      with Some a show ?thesis using match_field_groups by blast
    next
      assume "m \<in> set (findall_default rest)"
      with Some a "2.IH" show ?thesis by auto
    qed
  qed
qed

lemma parse_metadata_loop_spec:
  "parse_metadata_loop p ms s = (r, s') \<Longrightarrow>
     \<exists>qs. s' = s\<lparr>parsed_entries := parsed_entries s @ qs\<rparr> \<and> length qs \<le> length ms \<and>
       (\<forall>i<length qs. u_parse_metadata (ms ! i) p = Inr (qs ! i)) \<and>
       (r = None \<longrightarrow> length qs = length ms) \<and>
       (\<forall>err. r = Some err \<longrightarrow>
          length qs < length ms \<and> u_parse_metadata (ms ! length qs) p = Inl err)"
proof (induction ms arbitrary: s)
  case Nil
  then have "s' = s\<lparr>parsed_entries := parsed_entries s @ []\<rparr>" "r = None" by simp_all
  then show ?case by (intro exI [of _ "[]"]) simp
next
  case (Cons m ms)
  show ?case
  proof (cases "u_parse_metadata m p")
    case (Inl err)
    with Cons.prems have "s' = s\<lparr>parsed_entries := parsed_entries s @ []\<rparr>" "r = Some err"
      by simp_all
    with Inl show ?thesis by (intro exI [of _ "[]"]) simp
  next
    case (Inr q)
    let ?s1 = "s\<lparr>parsed_entries := parsed_entries s @ [q]\<rparr>"
    from Inr Cons.prems have "parse_metadata_loop p ms ?s1 = (r, s')" by simp
    from Cons.IH [OF this] obtain qs where
      s': "s' = ?s1\<lparr>parsed_entries := parsed_entries ?s1 @ qs\<rparr>"
      and len: "length qs \<le> length ms"
      and nth: "\<forall>i<length qs. u_parse_metadata (ms ! i) p = Inr (qs ! i)"
      and ok: "r = None \<longrightarrow> length qs = length ms"
      and bad: "\<forall>err. r = Some err \<longrightarrow>
          length qs < length ms \<and> u_parse_metadata (ms ! length qs) p = Inl err"
      by blast
    have a: "s' = s\<lparr>parsed_entries := parsed_entries s @ (q # qs)\<rparr>"
      using s' by simp
    have b: "\<forall>i<length (q # qs). u_parse_metadata ((m # ms) ! i) p = Inr ((q # qs) ! i)"
    proof (intro allI impI)
      fix i assume "i < length (q # qs)"
      then show "u_parse_metadata ((m # ms) ! i) p = Inr ((q # qs) ! i)"
        using Inr nth by (cases i) simp_all
    qed
    from a b len ok bad show ?thesis
      by (intro exI [of _ "q # qs"]) simp
  qed
qed

lemma dict_comprehension_returns:
  "(\<exists>d. dict_comprehension ms d0 = Inr d) \<longleftrightarrow> (\<forall>m\<in>set ms. length m = 2)"
proof (induction ms arbitrary: d0)
  case Nil
  show ?case by simp
next
  case (Cons m ms)
  show ?case
  proof (cases "length m = 2")
    case True
    then obtain key val where m: "m = [key, val]"
      by (cases m; cases "tl m"; cases "tl (tl m)") auto
    then show ?thesis using Cons.IH [of "AList.update (lower key) (Str val) d0"] by simp
  next
    case False
    then have "dict_comprehension (m # ms) d0 = Inl ValueError"
      by (auto split: list.splits)
    with False show ?thesis by simp
  qed
qed

lemma u_parse_metadata_returns:
  "(\<exists>q. u_parse_metadata metadata p = Inr q) \<longleftrightarrow> unpacks p metadata"
proof (cases "p metadata")
  case None
  then show ?thesis by (simp add: u_parse_metadata_def unpacks_def)
next
  case (Some matches)
  let ?ms = "map (filter (\<lambda>x. x \<noteq> [])) matches"
  have "(\<exists>q. u_parse_metadata metadata p = Inr q) \<longleftrightarrow> (\<exists>d. dict_comprehension ?ms [] = Inr d)"
    using Some by (auto simp: u_parse_metadata_def split: sum.splits)
  also have "\<dots> \<longleftrightarrow> (\<forall>m\<in>set ?ms. length m = 2)"
    by (rule dict_comprehension_returns)
  also have "\<dots> \<longleftrightarrow> unpacks p metadata"
    using Some by (simp add: unpacks_def list_all_iff)
  finally show ?thesis .
qed

lemma unpacks_default:
  "unpacks default_pattern metadata \<longleftrightarrow>
     list_all (\<lambda>m. concat (tl m) \<noteq> []) (findall_default metadata)"
proof -
  have "length (filter (\<lambda>x. x \<noteq> []) m) = 2 \<longleftrightarrow> concat (tl m) \<noteq> []"
    if "m \<in> set (findall_default metadata)" for m
  proof -
    from findall_default_groups [OF that] obtain key v where "key \<noteq> []"
      and "m = [key, v, [], []] \<or> m = [key, [], v, []] \<or> (m = [key, [], [], v] \<and> v \<noteq> [])"
      by blast
    then show ?thesis by auto
  qed
  then show ?thesis
    by (simp add: unpacks_def default_pattern_def list_all_iff)
qed

lemma parse_metadata_loop_returns:
  assumes "\<forall>m\<in>set ms. unpacks p m"
  shows "\<exists>qs. parse_metadata_loop p ms s = (None, s\<lparr>parsed_entries := parsed_entries s @ qs\<rparr>) \<and>
           length qs = length ms \<and>
           (\<forall>i<length qs. u_parse_metadata (ms ! i) p = Inr (qs ! i))"
proof -
  obtain r s' where res: "parse_metadata_loop p ms s = (r, s')"
    by (cases "parse_metadata_loop p ms s")
  from parse_metadata_loop_spec [OF res] obtain qs where
    s': "s' = s\<lparr>parsed_entries := parsed_entries s @ qs\<rparr>"
    and nth: "\<forall>i<length qs. u_parse_metadata (ms ! i) p = Inr (qs ! i)"
    and ok: "r = None \<longrightarrow> length qs = length ms"
    and bad: "\<forall>err. r = Some err \<longrightarrow>
          length qs < length ms \<and> u_parse_metadata (ms ! length qs) p = Inl err"
    by blast
  have "r = None"
  proof (cases r)
    case None
    then show ?thesis .
  next
    case (Some err)
    with bad have k: "length qs < length ms"
      and e: "u_parse_metadata (ms ! length qs) p = Inl err"
      by blast+
    from k assms have "unpacks p (ms ! length qs)" by simp
    then obtain q where "u_parse_metadata (ms ! length qs) p = Inr q"
      using u_parse_metadata_returns by blast
    with e show ?thesis by simp
  qed
  with res s' nth ok show ?thesis by blast
qed

lemma add_urls_loop_map:
  assumes "parsed_entries s = pre @ xs" and "\<forall>x\<in>set xs. x \<noteq> None"
  shows "add_urls_loop e (List.enumerate (length pre) xs) s =
           (None, s\<lparr>parsed_entries := pre @ map (map_option (with_urls e)) xs\<rparr>)"
  using assms
proof (induction xs arbitrary: pre s)
  case Nil
  then have "s\<lparr>parsed_entries := pre\<rparr> = s" by simp
  then show ?case by simp
next
  case (Cons x xs)
  from Cons.prems(2) obtain d where x: "x = Some d" by auto
  let ?x' = "Some (with_urls e d)"
  let ?s' = "s\<lparr>parsed_entries := pre @ ?x' # xs\<rparr>"
  have step: "add_urls_loop e (List.enumerate (length pre) (x # xs)) s =
                add_urls_loop e (List.enumerate (Suc (length pre)) xs) ?s'"
  proof (cases "map_of d ''doi''")
    case None
    then have "with_urls e d = d" by (simp add: with_urls_def)
    with Cons.prems(1) x have "?s' = s" by simp
    with None x show ?thesis by simp
  next
    case (Some doi)
    let ?u = "u_get_url_from_doi e doi"
    let ?es1 = "pre @ Some (AList.update ''doi_url'' ?u d) # xs"
    have 1: "setitem (length pre) ''doi_url'' ?u (parsed_entries s) = Inr ?es1"
      using Cons.prems(1) x by (simp add: setitem_def)
    have 2: "setitem (length pre) ''url'' ?u ?es1 =
               Inr (pre @ Some (AList.update ''url'' ?u (AList.update ''doi_url'' ?u d)) # xs)"
      by (simp add: setitem_def)
    from Some have "with_urls e d = AList.update ''url'' ?u (AList.update ''doi_url'' ?u d)"
      by (simp add: with_urls_def)
    with Some x 1 2 show ?thesis by (simp add: Let_def)
  qed
  have "add_urls_loop e (List.enumerate (length (pre @ [?x'])) xs) ?s' =
          (None, ?s'\<lparr>parsed_entries := (pre @ [?x']) @ map (map_option (with_urls e)) xs\<rparr>)"
    using Cons.prems(2) by (intro Cons.IH) simp_all
  with step x show ?case by simp
qed

lemma add_urls_from_doi_map:
  assumes "\<forall>x\<in>set (parsed_entries s). x \<noteq> None"
  shows "add_urls_from_doi e s =
           (None, s\<lparr>parsed_entries := map (map_option (with_urls e)) (parsed_entries s)\<rparr>)"
  using add_urls_loop_map [of s "[]" "parsed_entries s" e] assms
  by (simp add: add_urls_from_doi_def)

subsection \<open>The whole pipeline\<close>

lemma parse_metadata_loop_parse_all:
  "parse_metadata_loop p ms s =
     (fst (parse_all p ms), s\<lparr>parsed_entries := parsed_entries s @ snd (parse_all p ms)\<rparr>)"
proof (induction ms arbitrary: s)
  case Nil
  show ?case by simp
next
  case (Cons m ms)
  show ?case
  proof (cases "u_parse_metadata m p")
    case (Inl err)
    then show ?thesis by simp
  next
    case (Inr q)
    then show ?thesis
      by (simp add: Cons.IH split: prod.splits)
  qed
qed

lemma parse_all_append:
  "parse_all p (xs @ ys) =
     (case parse_all p xs of
        (Some err, qs) \<Rightarrow> (Some err, qs)
      | (None, qs) \<Rightarrow> (fst (parse_all p ys), qs @ snd (parse_all p ys)))"
  by (induction xs) (auto split: sum.splits prod.splits option.splits)

lemma parse_all_default_records:
  "x \<in> set (snd (parse_all default_pattern ms)) \<Longrightarrow> x \<noteq> None"
proof (induction ms arbitrary: x)
  case Nil
  then show ?case by simp
next
  case (Cons m ms)
  show ?case
  proof (cases "u_parse_metadata m default_pattern")
    case (Inl err)
    with Cons.prems show ?thesis by simp
  next
    case (Inr q)
    then have "q \<noteq> None"
      by (auto simp: u_parse_metadata_def default_pattern_def split: sum.splits)
    with Inr Cons show ?thesis by (auto split: prod.splits)
  qed
qed

lemma with_urls_idem: "with_urls e (with_urls e d) = with_urls e d"
proof (cases "map_of d ''doi''")
  case None
  then show ?thesis by (simp add: with_urls_def)
next
  case (Some doi)
  let ?u = "u_get_url_from_doi e doi"
  let ?d1 = "AList.update ''url'' ?u (AList.update ''doi_url'' ?u d)"
  from Some have w: "with_urls e d = ?d1" by (simp add: with_urls_def)
  from Some have "map_of ?d1 ''doi'' = Some doi" by (simp add: update_conv')
  then have "with_urls e ?d1 = AList.update ''url'' ?u (AList.update ''doi_url'' ?u ?d1)"
    by (simp add: with_urls_def)
  also have "AList.update ''doi_url'' ?u ?d1 = ?d1"
    by (rule update_triv) (simp add: update_conv')
  also have "AList.update ''url'' ?u ?d1 = ?d1"
    by (rule update_triv) (simp add: update_conv')
  finally show ?thesis using w by simp
qed

lemma parse_bibtex_readable:
  assumes "endswith (file_path s) ''.bib''" and "files e (file_path s) = Contents text"
    and "\<forall>x\<in>set (parsed_entries s). x \<noteq> None"
  shows "parse_bibtex e False s =
     (case parse_all default_pattern (metadata_entries s @ chunks text) of
        (Some err, qs) \<Rightarrow>
          (None, s\<lparr>bibtex_string := Some text,
                   metadata_entries := metadata_entries s @ chunks text,
                   parsed_entries := parsed_entries s @ qs\<rparr>)
      | (None, qs) \<Rightarrow>
          (Some (map (map_option (with_urls e)) (parsed_entries s @ qs)),
           s\<lparr>bibtex_string := Some text,
             metadata_entries := metadata_entries s @ chunks text,
             parsed_entries := map (map_option (with_urls e)) (parsed_entries s @ qs)\<rparr>))"
proof -
  let ?M = "metadata_entries s @ chunks text"
  let ?s1 = "s\<lparr>bibtex_string := Some text\<rparr>"
  let ?s2 = "?s1\<lparr>metadata_entries := ?M\<rparr>"
  obtain r qs where pa: "parse_all default_pattern ?M = (r, qs)" by (cases "parse_all default_pattern ?M")
  let ?s3 = "?s2\<lparr>parsed_entries := parsed_entries s @ qs\<rparr>"
  from assms(1,2) have rd: "read_bibtex_file e s = ?s1"
    by (simp add: read_bibtex_file_def)
  have ex: "extract_metadata ?s1 = (None, ?s2)"
    by (simp add: extract_metadata_def fold_keep_metadata chunks_def)
  have pm: "parse_metadata None ?s2 = (r, ?s3)"
    using pa by (simp add: parse_metadata_def parse_metadata_loop_parse_all)
  show ?thesis
  proof (cases r)
    case (Some err)
    with rd ex pm pa show ?thesis by (simp add: parse_bibtex_def)
  next
    case None
    from pa have "\<forall>x\<in>set qs. x \<noteq> None"
      using parse_all_default_records [of _ ?M] by auto
    with assms(3) have "\<forall>x\<in>set (parsed_entries ?s3). x \<noteq> None" by auto
    then have "add_urls_from_doi e ?s3 =
        (None, ?s3\<lparr>parsed_entries := map (map_option (with_urls e)) (parsed_entries ?s3)\<rparr>)"
      by (rule add_urls_from_doi_map)
    with None rd ex pm pa show ?thesis by (simp add: parse_bibtex_def)
  qed
qed

lemma parse_bibtex_unreadable:
  assumes "\<not> endswith (file_path s) ''.bib'' \<or> (\<forall>text. files e (file_path s) \<noteq> Contents text)"
    and "bibtex_string s = None"
  shows "parse_bibtex e json s = (None, s)"
proof -
  from assms(1) have "read_bibtex_file e s = s"
    by (cases "files e (file_path s)") (auto simp: read_bibtex_file_def)
  with assms(2) show ?thesis
    by (simp add: parse_bibtex_def extract_metadata_def)
qed

lemma u_get_url_from_doi_env:
  assumes "requests_head e = requests_head e'"
  shows "u_get_url_from_doi e = u_get_url_from_doi e'"
proof
  fix doi
  show "u_get_url_from_doi e doi = u_get_url_from_doi e' doi"
    unfolding u_get_url_from_doi_def assms ..
qed

lemma add_urls_loop_env:
  "requests_head e = requests_head e' \<Longrightarrow> add_urls_loop e xs s = add_urls_loop e' xs s"
proof (induction xs arbitrary: s)
  case Nil
  show ?case by simp
next
  case (Cons x xs)
  obtain idx entry where x: "x = (idx, entry)" by (cases x)
  from Cons.prems have u: "u_get_url_from_doi e = u_get_url_from_doi e'"
    by (rule u_get_url_from_doi_env)
  show ?case unfolding x
    by (simp add: u Cons.IH [OF Cons.prems] Let_def split: option.splits sum.splits)
qed

lemma parse_bibtex_env:
  assumes "files e (file_path s) = files e' (file_path s)" and "requests_head e = requests_head e'"
  shows "parse_bibtex e json s = parse_bibtex e' json s"
proof -
  from assms(1) have rd: "read_bibtex_file e s = read_bibtex_file e' s"
    by (simp add: read_bibtex_file_def)
  have au: "add_urls_from_doi e = add_urls_from_doi e'"
  proof
    fix t
    show "add_urls_from_doi e t = add_urls_from_doi e' t"
      unfolding add_urls_from_doi_def using assms(2) by (rule add_urls_loop_env)
  qed
  show ?thesis
    unfolding parse_bibtex_def Let_def rd au ..
qed

lemma parse_bibtex_readable_err:
  assumes "endswith (file_path s) ''.bib''" and "files e (file_path s) = Contents content"
    and "\<forall>x\<in>set (parsed_entries s). x \<noteq> None"
    and "parse_all default_pattern (metadata_entries s @ chunks content) = (Some err, qs)"
  shows "parse_bibtex e False s =
          (None, s\<lparr>bibtex_string := Some content,
                   metadata_entries := metadata_entries s @ chunks content,
                   parsed_entries := parsed_entries s @ qs\<rparr>)"
  using parse_bibtex_readable [OF assms(1,2,3)] assms(4) by simp

lemma parse_bibtex_readable_ok:
  assumes "endswith (file_path s) ''.bib''" and "files e (file_path s) = Contents content"
    and "\<forall>x\<in>set (parsed_entries s). x \<noteq> None"
    and "parse_all default_pattern (metadata_entries s @ chunks content) = (None, qs)"
  shows "parse_bibtex e False s =
          (Some (map (map_option (with_urls e)) (parsed_entries s @ qs)),
           s\<lparr>bibtex_string := Some content,
             metadata_entries := metadata_entries s @ chunks content,
             parsed_entries := map (map_option (with_urls e)) (parsed_entries s @ qs)\<rparr>)"
  using parse_bibtex_readable [OF assms(1,2,3)] assms(4) by simp

subsection \<open>The return value of \<open>parse_bibtex\<close>\<close>

text \<open>
  C10. With \<open>json=True\<close>, \<open>parse_bibtex\<close> returns \<open>None\<close> on every input: the string
  that \<open>extract_parsed_entries\<close> builds is not returned. The object is left as the
  \<open>json=False\<close> call leaves it, and only that call can return the list, which is then
  \<open>parsed_entries\<close> itself; it does so, for instance, on a file with one entry.
\<close>

theorem parse_bibtex_json_returns_None:
  "fst (parse_bibtex e True s) = None \<and>
   snd (parse_bibtex e True s) = snd (parse_bibtex e False s) \<and>
   (fst (parse_bibtex e False s) = None \<or>
    fst (parse_bibtex e False s) = Some (parsed_entries (snd (parse_bibtex e False s)))) \<and>
   fst (parse_bibtex
          \<lparr>files = (\<lambda>p. Contents ''@book{b1, title={X}}''), requests_head = (\<lambda>u. None),
           json_dumps = (\<lambda>es. ''[]'')\<rparr>
          False (bibtexParser_init ''refs.bib'')) = Some [Some [(''title'', Str ''X'')]]"
proof -
  have a: "fst (parse_bibtex e True s) = None"
    by (simp add: parse_bibtex_def Let_def split: prod.splits option.splits)
  have b: "snd (parse_bibtex e True s) = snd (parse_bibtex e False s)"
    by (simp add: parse_bibtex_def Let_def split: prod.splits option.splits)
  have c: "fst (parse_bibtex e False s) = None \<or>
    fst (parse_bibtex e False s) = Some (parsed_entries (snd (parse_bibtex e False s)))"
    by (simp add: parse_bibtex_def Let_def split: prod.splits option.splits)
  have d: "fst (parse_bibtex
          \<lparr>files = (\<lambda>p. Contents ''@book{b1, title={X}}''), requests_head = (\<lambda>u. None),
           json_dumps = (\<lambda>es. ''[]'')\<rparr>
          False (bibtexParser_init ''refs.bib'')) = Some [Some [(''title'', Str ''X'')]]"
    by code_simp
  from a b c d show ?thesis by blast
qed

subsection \<open>A field with an empty value\<close>

text \<open>
  C7. The field parser is meant not to fail on any chunk. On the chunk \<open>k, note = {}\<close>
  the default pattern matches \<open>note = {}\<close> with all three value groups empty, the
  filtered match is the one-element tuple \<open>('note',)\<close>, and unpacking it into
  \<open>key, value\<close> raises \<open>ValueError\<close>, which \<open>_parse_metadata\<close> does not catch and
  \<open>parse_metadata\<close> passes on.
\<close>

theorem parse_metadata_empty_value_raises:
  "u_parse_metadata ''k, note = {}'' default_pattern = Inl ValueError \<and>
   fst (parse_metadata None
          \<lparr>file_path = ''refs.bib'', bibtex_string = Some ''@misc{k, note = {}}'',
           metadata_entries = [''k, note = {}}''], parsed_entries = []\<rparr>) = Some ValueError"
  by code_simp

subsection \<open>Which segments become metadata\<close>

text \<open>
  C4. A segment of the split is accepted as entry metadata exactly when, trimmed, it is
  not empty and does not begin with \<open>@\<close>. \<open>extract_metadata\<close> appends the trimmed
  accepted segments, in order, and raises nothing; the other segments are dropped.
\<close>

theorem extract_metadata_filter:
  "extract_metadata (s\<lparr>bibtex_string := Some text\<rparr>) =
     (None, s\<lparr>bibtex_string := Some text,
              metadata_entries := metadata_entries s @
                map strip (filter (\<lambda>seg. strip seg \<noteq> [] \<and> hd (strip seg) \<noteq> CHR ''@'')
                                  (re_split [] (strip text)))\<rparr>) \<and>
   ((u_extract_entry_metadata seg \<noteq> None) = (strip seg \<noteq> [] \<and> hd (strip seg) \<noteq> CHR ''@''))"
  by (simp add: extract_metadata_def fold_keep_metadata u_extract_entry_metadata_def Let_def)

text \<open>
  C5, as stated: a text without a delimiter yields no chunk. The text \<open>hello\<close> has no
  delimiter and yields the chunk \<open>hello\<close>.
\<close>

theorem extract_metadata_no_delimiter_counterexample:
  "\<not> contains_delimiter ''hello'' \<and>
   extract_metadata (bibtexParser_init ''refs.bib''\<lparr>bibtex_string := Some ''hello''\<rparr>) =
     (None, \<lparr>file_path = ''refs.bib'', bibtex_string = Some ''hello'',
             metadata_entries = [''hello''], parsed_entries = []\<rparr>)"
proof -
  have "\<not> has_delim ''hello''" by code_simp
  then have "\<not> contains_delimiter ''hello''" by (simp add: has_delim_iff)
  moreover have
    "extract_metadata (bibtexParser_init ''refs.bib''\<lparr>bibtex_string := Some ''hello''\<rparr>) =
       (None, \<lparr>file_path = ''refs.bib'', bibtex_string = Some ''hello'',
               metadata_entries = [''hello''], parsed_entries = []\<rparr>)"
    by code_simp
  ultimately show ?thesis ..
qed

text \<open>
  C5, amended: on a text without a delimiter \<open>extract_metadata\<close> raises nothing; it
  appends no chunk when the trimmed text is empty or begins with \<open>@\<close>, and otherwise
  appends one chunk, the trimmed text.
\<close>

theorem extract_metadata_no_delimiter:
  assumes "\<not> contains_delimiter text"
  shows "extract_metadata (s\<lparr>bibtex_string := Some text\<rparr>) =
     (None, s\<lparr>bibtex_string := Some text,
              metadata_entries := metadata_entries s @
                (if strip text = [] \<or> hd (strip text) = CHR ''@'' then [] else [strip text])\<rparr>)"
proof -
  from assms have "\<not> has_delim (strip text)"
    using contains_delimiter_strip has_delim_iff by blast
  then have "re_split [] (strip text) = [strip text]"
    by (simp add: re_split_no_delim)
  then show ?thesis
    by (simp add: extract_metadata_def keep_metadata_eq strip_idem strip_Nil)
qed


theorem extract_metadata_no_delimiter_witness:
  "\<not> contains_delimiter ''  % no entries  '' \<and>
   extract_metadata (bibtexParser_init ''refs.bib''\<lparr>bibtex_string := Some ''  % no entries  ''\<rparr>) =
     (None, \<lparr>file_path = ''refs.bib'', bibtex_string = Some ''  % no entries  '',
             metadata_entries = [''% no entries''], parsed_entries = []\<rparr>)"
proof -
  have "\<not> has_delim ''  % no entries  ''" by code_simp
  then have h: "\<not> contains_delimiter ''  % no entries  ''" by (simp add: has_delim_iff)
  have "strip ''  % no entries  '' = ''% no entries''" by code_simp
  with extract_metadata_no_delimiter [OF h, of "bibtexParser_init ''refs.bib''"] h
  show ?thesis by (simp add: bibtexParser_init_def)
qed

subsection \<open>One chunk for each entry\<close>

text \<open>
  C9. On a text made of \<open>N\<close> well-formed entries, each introduced by a delimiter, with
  nothing but white space before the first and after the last, \<open>extract_metadata\<close>
  raises nothing and appends exactly \<open>N\<close> chunks, the trimmed bodies in source order.
\<close>

theorem extract_metadata_count:
  assumes pre: "\<forall>c\<in>set pre. is_space c" and post: "\<forall>c\<in>set post. is_space c"
    and wf: "\<forall>e\<in>set es. well_formed_entry e"
  shows "extract_metadata (s\<lparr>bibtex_string := Some (pre @ concat (map entry_text es) @ post)\<rparr>) =
     (None, s\<lparr>bibtex_string := Some (pre @ concat (map entry_text es) @ post),
              metadata_entries := metadata_entries s @ map (\<lambda>e. strip (snd e)) es\<rparr>) \<and>
   length (metadata_entries (snd (extract_metadata
       (s\<lparr>bibtex_string := Some (pre @ concat (map entry_text es) @ post)\<rparr>)))) =
     length (metadata_entries s) + length es"
proof -
  let ?ok = "\<lambda>seg. strip seg \<noteq> [] \<and> hd (strip seg) \<noteq> CHR ''@''"
  let ?text = "pre @ concat (map entry_text es) @ post"
  have "map strip (filter ?ok (re_split [] (strip ?text))) = map (\<lambda>e. strip (snd e)) es"
  proof (cases es rule: rev_cases)
    case Nil
    from pre post have "\<forall>c\<in>set (pre @ post). is_space c" by auto
    then have d: "dropWhile is_space (pre @ post) = []" by (simp only: dropWhile_eq_Nil_conv)
    have "strip (pre @ post) = []" unfolding strip_def d by simp
    with Nil show ?thesis by (simp add: strip_Nil)
  next
    case (snoc es0 e)
    obtain ty body where e: "e = (ty, body)" by (cases e)
    from wf snoc e have wfe: "ty \<noteq> []" "\<forall>c\<in>set ty. is_letter c" "\<not> contains_delimiter body"
      "strip body \<noteq> []" "hd (strip body) \<noteq> CHR ''@''"
      and wf0: "\<forall>x\<in>set es0. well_formed_entry x"
      by (simp_all add: well_formed_entry_def)
    from strip_padded_entries [OF pre post wfe(4), of es0 ty]
    obtain w w2 where w: "\<forall>c\<in>set w. is_space c"
      and st: "strip (pre @ concat (map entry_text (es0 @ [(ty, body)])) @ post) =
                 concat (map entry_text (es0 @ [(ty, w @ strip body)]))"
      and b: "body = w @ strip body @ w2"
      by blast
    let ?es' = "es0 @ [(ty, w @ strip body)]"
    have nd: "\<not> contains_delimiter (w @ strip body)"
    proof
      assume "contains_delimiter (w @ strip body)"
      then obtain p tok q where "delimiter tok" "w @ strip body = p @ tok @ q"
        unfolding contains_delimiter_def by blast
      then have "delimiter tok" "w @ strip body @ w2 = p @ tok @ (q @ w2)"
        by simp_all
      then have "contains_delimiter (w @ strip body @ w2)"
        unfolding contains_delimiter_def by blast
      with b wfe(3) show False by simp
    qed
    from wfe(4) have ends: "\<not> is_space (hd (strip body))" "\<not> is_space (last (strip body))"
      using strip_ends by blast+
    have "strip (w @ strip body @ []) = strip body"
      using w _ wfe(4) ends by (rule strip_decomp) simp
    then have sb: "strip (w @ strip body) = strip body" by simp
    have c1: "\<forall>e\<in>set ?es'. fst e \<noteq> [] \<and> (\<forall>c\<in>set (fst e). is_letter c) \<and> \<not> has_delim (snd e)"
      using wf0 wfe nd by (auto simp: well_formed_entry_def has_delim_iff)
    have c2: "\<forall>e\<in>set ?es'. (\<forall>c\<in>set (fst e). is_letter c) \<and> strip (snd e) \<noteq> [] \<and>
             hd (strip (snd e)) \<noteq> CHR ''@''"
      using wf0 wfe sb by (auto simp: well_formed_entry_def)
    have "re_split [] ([] @ concat (map entry_text ?es')) =
            (rev [] @ []) # concat (map (\<lambda>e. [CHR ''@'' # fst e @ ''{'', snd e]) ?es')"
      using c1 by (rule re_split_entries) simp
    then have "map strip (filter ?ok (re_split [] (concat (map entry_text ?es')))) =
        map strip (filter ?ok (concat (map (\<lambda>e. [CHR ''@'' # fst e @ ''{'', snd e]) ?es')))"
      by (simp add: strip_Nil)
    also have "\<dots> = map (\<lambda>e. strip (snd e)) ?es'"
      using c2 by (rule kept_entries)
    also have "\<dots> = map (\<lambda>e. strip (snd e)) es"
      using snoc e sb by simp
    finally show ?thesis using st snoc e by simp
  qed
  then have "extract_metadata (s\<lparr>bibtex_string := Some ?text\<rparr>) =
     (None, s\<lparr>bibtex_string := Some ?text,
              metadata_entries := metadata_entries s @ map (\<lambda>e. strip (snd e)) es\<rparr>)"
    by (simp add: extract_metadata_def fold_keep_metadata)
  then show ?thesis by simp
qed

theorem extract_metadata_count_witness:
  "extract_metadata (bibtexParser_init ''refs.bib''
      \<lparr>bibtex_string := Some '' @book{b1, title={X}}@book{b2, title={Y}} ''\<rparr>) =
     (None, \<lparr>file_path = ''refs.bib'',
             bibtex_string = Some '' @book{b1, title={X}}@book{b2, title={Y}} '',
             metadata_entries = [''b1, title={X}}'', ''b2, title={Y}}''],
             parsed_entries = []\<rparr>) \<and>
   length (metadata_entries (snd (extract_metadata (bibtexParser_init ''refs.bib''
      \<lparr>bibtex_string := Some '' @book{b1, title={X}}@book{b2, title={Y}} ''\<rparr>)))) = 2"
proof -
  let ?es = "[(''book'', ''b1, title={X}}''), (''book'', ''b2, title={Y}} '')]"
  have sp: "\<forall>c\<in>set '' ''. is_space c" "\<forall>c\<in>set []. is_space c"
    by (simp_all add: is_space_def code_def)
  have "\<not> has_delim ''b1, title={X}}''" "\<not> has_delim ''b2, title={Y}} ''"
    by code_simp+
  then have nd: "\<not> contains_delimiter ''b1, title={X}}''"
    "\<not> contains_delimiter ''b2, title={Y}} ''"
    by (simp_all add: has_delim_iff)
  have st: "strip ''b1, title={X}}'' = ''b1, title={X}}''"
    "strip ''b2, title={Y}} '' = ''b2, title={Y}}''"
    by code_simp+
  have "list_all is_letter ''book''" by code_simp
  with nd st have wf: "\<forall>e\<in>set ?es. well_formed_entry e"
    by (simp add: well_formed_entry_def list_all_iff)
  from extract_metadata_count [OF sp wf, of "bibtexParser_init ''refs.bib''"] st
  show ?thesis by (simp add: entry_text_def bibtexParser_init_def)
qed

subsection \<open>Keys and values of a parsed record\<close>

text \<open>
  C6. Every match of the field pattern is to give an entry of the mapping, its key
  lowercased. On the chunk \<open>k, author = {A}, title = {}\<close> the matches are
  \<open>author = {A}\<close> and \<open>title = {}\<close>; the second has no non-empty value group, the
  dict comprehension raises \<open>ValueError\<close>, and there is no mapping, also none for
  \<open>author\<close>, which the chunk \<open>k, author = {A}\<close> alone does give. With the default
  pattern \<open>_parse_metadata\<close> returns exactly on the chunks in which every match has a
  non-empty value group.
\<close>

theorem parse_metadata_fields_lost:
  "findall_default ''k, author = {A}, title = {}'' =
     [[''author'', [], ''A'', []], [''title'', [], [], []]] \<and>
   u_parse_metadata ''k, author = {A}, title = {}'' default_pattern = Inl ValueError \<and>
   u_parse_metadata ''k, author = {A}'' default_pattern = Inr (Some [(''author'', Str ''A'')]) \<and>
   ((\<exists>r. u_parse_metadata metadata default_pattern = Inr r) =
      list_all (\<lambda>m. concat (tl m) \<noteq> []) (findall_default metadata))"
proof -
  have a: "findall_default ''k, author = {A}, title = {}'' =
     [[''author'', [], ''A'', []], [''title'', [], [], []]]"
    by code_simp
  have b: "u_parse_metadata ''k, author = {A}, title = {}'' default_pattern = Inl ValueError"
    by code_simp
  have c: "u_parse_metadata ''k, author = {A}'' default_pattern =
      Inr (Some [(''author'', Str ''A'')])"
    by code_simp
  have d: "(\<exists>r. u_parse_metadata metadata default_pattern = Inr r) =
      list_all (\<lambda>m. concat (tl m) \<noteq> []) (findall_default metadata)"
    using u_parse_metadata_returns [of metadata default_pattern] unpacks_default [of metadata]
    by simp
  from a b c d show ?thesis by blast
qed

subsection \<open>Records and chunks, position by position\<close>

text \<open>
  C3, as stated: after the parse pass there are never more records than chunks.
  \<open>parse_metadata\<close> appends to the records that are there: a second pass on a parser
  with one chunk leaves two records for that chunk.
\<close>

theorem parse_metadata_positions_counterexample:
  "parsed_entries (snd (parse_metadata None (snd (parse_metadata None
      \<lparr>file_path = ''refs.bib'', bibtex_string = Some ''@book{k1, year = 2020}'',
       metadata_entries = [''k1, year = 2020}''], parsed_entries = []\<rparr>)))) =
     [Some [(''year'', Str ''2020'')], Some [(''year'', Str ''2020'')]] \<and>
   metadata_entries (snd (parse_metadata None (snd (parse_metadata None
      \<lparr>file_path = ''refs.bib'', bibtex_string = Some ''@book{k1, year = 2020}'',
       metadata_entries = [''k1, year = 2020}''], parsed_entries = []\<rparr>)))) =
     [''k1, year = 2020}'']"
  by code_simp

text \<open>
  C3, amended: when every chunk unpacks under the pattern, \<open>parse_metadata\<close> returns
  and appends exactly one record for each metadata chunk, in the order of the chunks: the
  record that \<open>_parse_metadata\<close> returns for that chunk, which is \<open>None\<close> when the
  pattern raises \<open>re.error\<close> and the empty record when the pattern matches nowhere. On
  a parser whose \<open>parsed_entries\<close> was empty the records are then as many as the chunks
  and the \<open>i\<close>-th record belongs to the \<open>i\<close>-th chunk.
\<close>

theorem parse_metadata_positions:
  assumes "\<forall>m\<in>set (metadata_entries s).
             unpacks (case pattern of None \<Rightarrow> default_pattern | Some q \<Rightarrow> q) m"
  shows "\<exists>qs. parse_metadata pattern s = (None, s\<lparr>parsed_entries := parsed_entries s @ qs\<rparr>) \<and>
     length qs = length (metadata_entries s) \<and>
     (parsed_entries s = [] \<longrightarrow>
        parsed_entries (snd (parse_metadata pattern s)) = qs \<and>
        length (parsed_entries (snd (parse_metadata pattern s))) =
          length (metadata_entries (snd (parse_metadata pattern s)))) \<and>
     (\<forall>i<length qs.
        u_parse_metadata (metadata_entries s ! i)
          (case pattern of None \<Rightarrow> default_pattern | Some q \<Rightarrow> q) = Inr (qs ! i) \<and>
        ((case pattern of None \<Rightarrow> default_pattern | Some q \<Rightarrow> q) (metadata_entries s ! i) = None
           \<longrightarrow> qs ! i = None) \<and>
        ((case pattern of None \<Rightarrow> default_pattern | Some q \<Rightarrow> q) (metadata_entries s ! i) = Some []
           \<longrightarrow> qs ! i = Some []))"
proof -
  let ?p = "case pattern of None \<Rightarrow> default_pattern | Some q \<Rightarrow> q"
  from parse_metadata_loop_returns [OF assms, of s] obtain qs where
    res: "parse_metadata_loop ?p (metadata_entries s) s =
            (None, s\<lparr>parsed_entries := parsed_entries s @ qs\<rparr>)"
    and len: "length qs = length (metadata_entries s)"
    and nth: "\<forall>i<length qs. u_parse_metadata (metadata_entries s ! i) ?p = Inr (qs ! i)"
    by blast
  from res have pm: "parse_metadata pattern s = (None, s\<lparr>parsed_entries := parsed_entries s @ qs\<rparr>)"
    by (simp add: parse_metadata_def)
  have ph: "(?p (metadata_entries s ! i) = None \<longrightarrow> qs ! i = None) \<and>
            (?p (metadata_entries s ! i) = Some [] \<longrightarrow> qs ! i = Some [])"
    if "i < length qs" for i
  proof -
    from that nth have "u_parse_metadata (metadata_entries s ! i) ?p = Inr (qs ! i)" by blast
    then show ?thesis
      by (auto simp: u_parse_metadata_def split: option.splits)
  qed
  have fresh: "parsed_entries s = [] \<longrightarrow>
        parsed_entries (snd (parse_metadata pattern s)) = qs \<and>
        length (parsed_entries (snd (parse_metadata pattern s))) =
          length (metadata_entries (snd (parse_metadata pattern s)))"
    using pm len by simp
  from pm len fresh nth ph show ?thesis by blast
qed

theorem parse_metadata_positions_witness:
  "fst (parse_metadata None
     \<lparr>file_path = ''refs.bib'', bibtex_string = None,
      metadata_entries = [''k1, year = 2020}'', ''no fields here'', ''k3, A = {x}, a = 7}''],
      parsed_entries = []\<rparr>) = None \<and>
   length (parsed_entries (snd (parse_metadata None
     \<lparr>file_path = ''refs.bib'', bibtex_string = None,
      metadata_entries = [''k1, year = 2020}'', ''no fields here'', ''k3, A = {x}, a = 7}''],
      parsed_entries = []\<rparr>))) = 3 \<and>
   parsed_entries (snd (parse_metadata None
     \<lparr>file_path = ''refs.bib'', bibtex_string = None,
      metadata_entries = [''k1, year = 2020}'', ''no fields here'', ''k3, A = {x}, a = 7}''],
      parsed_entries = []\<rparr>)) ! 1 = Some []"
proof -
  let ?s = "\<lparr>file_path = ''refs.bib'', bibtex_string = None,
      metadata_entries = [''k1, year = 2020}'', ''no fields here'', ''k3, A = {x}, a = 7}''],
      parsed_entries = []\<rparr>"
  have u: "unpacks default_pattern ''k1, year = 2020}''"
    "unpacks default_pattern ''no fields here''"
    "unpacks default_pattern ''k3, A = {x}, a = 7}''"
    by code_simp+
  then have h: "\<forall>m\<in>set (metadata_entries ?s).
             unpacks (case None of None \<Rightarrow> default_pattern | Some q \<Rightarrow> q) m"
    by simp
  have e: "default_pattern ''no fields here'' = Some []" by code_simp
  from parse_metadata_positions [OF h] obtain qs where
    pm: "parse_metadata None ?s = (None, ?s\<lparr>parsed_entries := parsed_entries ?s @ qs\<rparr>)"
    and len: "length qs = length (metadata_entries ?s)"
    and ph: "\<forall>i<length qs.
        ((case None of None \<Rightarrow> default_pattern | Some q \<Rightarrow> q) (metadata_entries ?s ! i) = Some []
           \<longrightarrow> qs ! i = Some [])"
    by blast
  from len have l3: "length qs = 3" by simp
  with ph e have "qs ! 1 = Some []" by simp
  with pm l3 show ?thesis by simp
qed

subsection \<open>A DOI lookup that fails\<close>

text \<open>
  C1, as stated: after a failed lookup the record has no \<open>doi_url\<close> and no \<open>url\<close>
  key. With a resolver that always fails, the record of an entry with a \<open>doi\<close> field
  ends with both keys, each holding \<open>None\<close>.
\<close>

theorem add_urls_from_doi_failure_counterexample:
  "add_urls_from_doi
     \<lparr>files = (\<lambda>p. Missing), requests_head = (\<lambda>u. None), json_dumps = (\<lambda>es. [])\<rparr>
     \<lparr>file_path = ''refs.bib'', bibtex_string = None, metadata_entries = [''k, doi = {10.1/x}}''],
      parsed_entries = [Some [(''doi'', Str ''10.1/x'')]]\<rparr> =
   (None,
     \<lparr>file_path = ''refs.bib'', bibtex_string = None, metadata_entries = [''k, doi = {10.1/x}}''],
      parsed_entries = [Some [(''doi'', Str ''10.1/x''), (''doi_url'', PyNone), (''url'', PyNone)]]\<rparr>)"
  by code_simp

text \<open>
  C1, amended: where all entries are records and the lookup for the \<open>doi\<close> of entry
  \<open>i\<close> fails, \<open>add_urls_from_doi\<close> raises nothing, the record of entry \<open>i\<close> keeps
  its fields and gets the keys \<open>doi_url\<close> and \<open>url\<close>, both holding \<open>None\<close>, and
  the record of any other entry comes out the same whatever record stands at \<open>i\<close>.
\<close>

theorem add_urls_from_doi_failure:
  assumes "i < length (parsed_entries s)" and "parsed_entries s ! i = Some d"
    and "map_of d ''doi'' = Some (Str doi)"
    and "requests_head e (''http://dx.doi.org/'' @ doi) = None"
    and "\<forall>x\<in>set (parsed_entries s). x \<noteq> None"
  shows "fst (add_urls_from_doi e s) = None \<and>
     (\<exists>d'. parsed_entries (snd (add_urls_from_doi e s)) ! i = Some d' \<and>
            map_of d' = (map_of d)(''doi_url'' \<mapsto> PyNone, ''url'' \<mapsto> PyNone)) \<and>
     (\<forall>j<length (parsed_entries s). j \<noteq> i \<longrightarrow>
        parsed_entries (snd (add_urls_from_doi e s)) ! j =
        parsed_entries (snd (add_urls_from_doi e
           (s\<lparr>parsed_entries := (parsed_entries s)[i := Some other]\<rparr>))) ! j)"
proof -
  let ?f = "map_option (with_urls e)"
  let ?es = "parsed_entries s"
  have r: "add_urls_from_doi e s = (None, s\<lparr>parsed_entries := map ?f ?es\<rparr>)"
    using assms(5) by (rule add_urls_from_doi_map)
  have "\<forall>x\<in>set (?es[i := Some other]). x \<noteq> None"
    using assms(5) by (auto dest: set_update_subset_insert [THEN subsetD])
  then have r': "add_urls_from_doi e (s\<lparr>parsed_entries := ?es[i := Some other]\<rparr>) =
      (None, s\<lparr>parsed_entries := map ?f (?es[i := Some other])\<rparr>)"
    using add_urls_from_doi_map [of "s\<lparr>parsed_entries := ?es[i := Some other]\<rparr>" e] by simp
  from assms(3,4) have w: "with_urls e d =
      AList.update ''url'' PyNone (AList.update ''doi_url'' PyNone d)"
    by (simp add: with_urls_def u_get_url_from_doi_def)
  have "map_of (with_urls e d) = (map_of d)(''doi_url'' \<mapsto> PyNone, ''url'' \<mapsto> PyNone)"
    unfolding w by (simp add: update_conv')
  moreover from assms(1,2) have "map ?f ?es ! i = Some (with_urls e d)" by simp
  ultimately have b: "\<exists>d'. parsed_entries (snd (add_urls_from_doi e s)) ! i = Some d' \<and>
            map_of d' = (map_of d)(''doi_url'' \<mapsto> PyNone, ''url'' \<mapsto> PyNone)"
    using r by simp
  have c: "\<forall>j<length ?es. j \<noteq> i \<longrightarrow>
        parsed_entries (snd (add_urls_from_doi e s)) ! j =
        parsed_entries (snd (add_urls_from_doi e (s\<lparr>parsed_entries := ?es[i := Some other]\<rparr>))) ! j"
    using r r' by simp
  from r b c show ?thesis by simp
qed

theorem add_urls_from_doi_failure_witness:
  "fst (add_urls_from_doi
     \<lparr>files = (\<lambda>p. Missing), requests_head = (\<lambda>u. None), json_dumps = (\<lambda>es. [])\<rparr>
     \<lparr>file_path = ''refs.bib'', bibtex_string = None, metadata_entries = [],
      parsed_entries = [Some [(''doi'', Str ''10.1/x'')], Some [(''title'', Str ''T'')]]\<rparr>) = None \<and>
   parsed_entries (snd (add_urls_from_doi
     \<lparr>files = (\<lambda>p. Missing), requests_head = (\<lambda>u. None), json_dumps = (\<lambda>es. [])\<rparr>
     \<lparr>file_path = ''refs.bib'', bibtex_string = None, metadata_entries = [],
      parsed_entries = [Some [(''doi'', Str ''10.1/x'')], Some [(''title'', Str ''T'')]]\<rparr>)) ! Suc 0 =
   parsed_entries (snd (add_urls_from_doi
     \<lparr>files = (\<lambda>p. Missing), requests_head = (\<lambda>u. None), json_dumps = (\<lambda>es. [])\<rparr>
     \<lparr>file_path = ''refs.bib'', bibtex_string = None, metadata_entries = [],
      parsed_entries = [Some [], Some [(''title'', Str ''T'')]]\<rparr>)) ! Suc 0"
proof -
  let ?e = "\<lparr>files = (\<lambda>p. Missing), requests_head = (\<lambda>u. None), json_dumps = (\<lambda>es. [])\<rparr>"
  let ?s = "\<lparr>file_path = ''refs.bib'', bibtex_string = None, metadata_entries = [],
      parsed_entries = [Some [(''doi'', Str ''10.1/x'')], Some [(''title'', Str ''T'')]]\<rparr>"
  have h1: "0 < length (parsed_entries ?s)" by simp
  have h2: "parsed_entries ?s ! 0 = Some [(''doi'', Str ''10.1/x'')]" by simp
  have h3: "map_of [(''doi'', Str ''10.1/x'')] ''doi'' = Some (Str ''10.1/x'')" by simp
  have h4: "requests_head ?e (''http://dx.doi.org/'' @ ''10.1/x'') = None" by simp
  have h5: "\<forall>x\<in>set (parsed_entries ?s). x \<noteq> None" by simp
  have j: "Suc 0 < length (parsed_entries ?s)" "Suc 0 \<noteq> 0" by simp_all
  from add_urls_from_doi_failure [OF h1 h2 h3 h4 h5, of "[]"] j
  have "fst (add_urls_from_doi ?e ?s) = None \<and>
        parsed_entries (snd (add_urls_from_doi ?e ?s)) ! Suc 0 =
        parsed_entries (snd (add_urls_from_doi ?e
           (?s\<lparr>parsed_entries := (parsed_entries ?s)[0 := Some []]\<rparr>))) ! Suc 0"
    by blast
  then show ?thesis by simp
qed

subsection \<open>A parser whose text was never read\<close>

text \<open>
  C8, as stated: after a rejected path every later stage is a no-op. For the path
  \<open>notes.txt\<close> the text stays unset and \<open>extract_metadata\<close> raises
  \<open>AttributeError\<close>.
\<close>

theorem unset_text_defence_counterexample:
  "extract_metadata
     (read_bibtex_file
        \<lparr>files = (\<lambda>p. Missing), requests_head = (\<lambda>u. None), json_dumps = (\<lambda>es. [])\<rparr>
        (bibtexParser_init ''notes.txt'')) =
   (Some AttributeError, bibtexParser_init ''notes.txt'')"
  by code_simp

text \<open>
  C8, amended: when the path of a new parser does not end in \<open>.bib\<close> or the file is
  missing, \<open>read_bibtex_file\<close> leaves the text unset; \<open>extract_metadata\<close> then raises
  \<open>AttributeError\<close> and changes nothing, \<open>parse_metadata\<close> and
  \<open>add_urls_from_doi\<close> return without a change, and \<open>parse_bibtex\<close> catches the
  exception, returns \<open>None\<close> and leaves the parser as it was.
\<close>

theorem unset_text_defence:
  assumes "\<not> endswith path ''.bib'' \<or> files e path = Missing"
  shows "read_bibtex_file e (bibtexParser_init path) = bibtexParser_init path \<and>
     bibtex_string (bibtexParser_init path) = None \<and>
     extract_metadata (bibtexParser_init path) = (Some AttributeError, bibtexParser_init path) \<and>
     parse_metadata pattern (bibtexParser_init path) = (None, bibtexParser_init path) \<and>
     add_urls_from_doi e (bibtexParser_init path) = (None, bibtexParser_init path) \<and>
     parse_bibtex e json (bibtexParser_init path) = (None, bibtexParser_init path)"
proof -
  let ?s = "bibtexParser_init path"
  from assms have a: "read_bibtex_file e ?s = ?s"
    by (auto simp: read_bibtex_file_def bibtexParser_init_def)
  have b: "bibtex_string ?s = None" by (simp add: bibtexParser_init_def)
  then have c: "extract_metadata ?s = (Some AttributeError, ?s)"
    by (simp add: extract_metadata_def)
  have d: "parse_metadata pattern ?s = (None, ?s)"
    by (simp add: parse_metadata_def bibtexParser_init_def)
  have f: "add_urls_from_doi e ?s = (None, ?s)"
    by (simp add: add_urls_from_doi_def bibtexParser_init_def)
  from a c have g: "parse_bibtex e json ?s = (None, ?s)"
    by (simp add: parse_bibtex_def)
  from a b c d f g show ?thesis by simp
qed

theorem unset_text_defence_witness:
  "extract_metadata (bibtexParser_init ''notes.txt'') =
     (Some AttributeError, bibtexParser_init ''notes.txt'') \<and>
   parse_bibtex
     \<lparr>files = (\<lambda>p. Missing), requests_head = (\<lambda>u. None), json_dumps = (\<lambda>es. [])\<rparr>
     False (bibtexParser_init ''notes.txt'') = (None, bibtexParser_init ''notes.txt'')"
proof -
  let ?e = "\<lparr>files = (\<lambda>p. Missing), requests_head = (\<lambda>u. None), json_dumps = (\<lambda>es. [])\<rparr>"
  have "\<not> endswith ''notes.txt'' ''.bib''" by code_simp
  then have h: "\<not> endswith ''notes.txt'' ''.bib'' \<or> files ?e ''notes.txt'' = Missing" ..
  from unset_text_defence [OF h, of None False] show ?thesis by blast
qed


subsection \<open>Running the pipeline twice\<close>

text \<open>
  C2, as stated: two runs of \<open>parse_bibtex\<close> on the same file content, with the same
  resolver, return the same. On one parser object the lists of \<open>__init__\<close> are never
  reset: for a file with one entry the first call returns one record and the second call,
  on the same object, three.
\<close>

theorem parse_bibtex_twice_counterexample:
  "fst (parse_bibtex
     \<lparr>files = (\<lambda>p. Contents ''@book{b1, title={X}}''), requests_head = (\<lambda>u. None),
      json_dumps = (\<lambda>es. [])\<rparr> False
     (snd (parse_bibtex
        \<lparr>files = (\<lambda>p. Contents ''@book{b1, title={X}}''), requests_head = (\<lambda>u. None),
         json_dumps = (\<lambda>es. [])\<rparr> False (bibtexParser_init ''refs.bib'')))) \<noteq>
   fst (parse_bibtex
     \<lparr>files = (\<lambda>p. Contents ''@book{b1, title={X}}''), requests_head = (\<lambda>u. None),
      json_dumps = (\<lambda>es. [])\<rparr> False (bibtexParser_init ''refs.bib'')) \<and>
   fst (parse_bibtex
     \<lparr>files = (\<lambda>p. Contents ''@book{b1, title={X}}''), requests_head = (\<lambda>u. None),
      json_dumps = (\<lambda>es. [])\<rparr> False (bibtexParser_init ''refs.bib'')) =
     Some [Some [(''title'', Str ''X'')]] \<and>
   fst (parse_bibtex
     \<lparr>files = (\<lambda>p. Contents ''@book{b1, title={X}}''), requests_head = (\<lambda>u. None),
      json_dumps = (\<lambda>es. [])\<rparr> False
     (snd (parse_bibtex
        \<lparr>files = (\<lambda>p. Contents ''@book{b1, title={X}}''), requests_head = (\<lambda>u. None),
         json_dumps = (\<lambda>es. [])\<rparr> False (bibtexParser_init ''refs.bib'')))) =
     Some [Some [(''title'', Str ''X'')], Some [(''title'', Str ''X'')],
           Some [(''title'', Str ''X'')]]"
  by code_simp

text \<open>
  C2, amended: \<open>parse_bibtex\<close> on a newly made parser returns the same, and leaves the
  same object, whenever the file at its path and the resolver are the same; a second call
  on the same object returns \<open>None\<close> if the first did, and otherwise the records of the
  first call three times over.
\<close>

theorem parse_bibtex_twice:
  "fst (parse_bibtex e False (snd (parse_bibtex e False (bibtexParser_init path)))) =
     (case fst (parse_bibtex e False (bibtexParser_init path)) of
        None \<Rightarrow> None
      | Some records \<Rightarrow> Some (records @ records @ records)) \<and>
   (files e path = files e' path \<and> requests_head e = requests_head e' \<longrightarrow>
      parse_bibtex e json (bibtexParser_init path) = parse_bibtex e' json (bibtexParser_init path))"
proof -
  let ?s0 = "bibtexParser_init path"
  let ?f = "map_option (with_urls e)"
  have s0: "file_path ?s0 = path" "bibtex_string ?s0 = None" "metadata_entries ?s0 = []"
    "parsed_entries ?s0 = []"
    by (simp_all add: bibtexParser_init_def)
  have twice: "fst (parse_bibtex e False (snd (parse_bibtex e False ?s0))) =
     (case fst (parse_bibtex e False ?s0) of
        None \<Rightarrow> None
      | Some records \<Rightarrow> Some (records @ records @ records))"
  proof (cases "endswith path ''.bib'' \<and> (\<exists>content. files e path = Contents content)")
    case False
    then have "parse_bibtex e False ?s0 = (None, ?s0)"
      using s0 by (intro parse_bibtex_unreadable) auto
    then show ?thesis by simp
  next
    case True
    then obtain content where bib: "endswith path ''.bib''"
      and f: "files e path = Contents content"
      by blast
    let ?M = "chunks content"
    obtain r qs where pa: "parse_all default_pattern ?M = (r, qs)"
      by (cases "parse_all default_pattern ?M")
    have rec: "\<forall>x\<in>set qs. x \<noteq> None"
      using pa parse_all_default_records [of _ ?M] by auto
    have bib0: "endswith (file_path ?s0) ''.bib''" and f0: "files e (file_path ?s0) = Contents content"
      and rec0: "\<forall>x\<in>set (parsed_entries ?s0). x \<noteq> None"
      using bib f s0 by simp_all
    show ?thesis
    proof (cases r)
      case (Some err)
      let ?s1 = "?s0\<lparr>bibtex_string := Some content, metadata_entries := ?M, parsed_entries := qs\<rparr>"
      from pa Some s0 have "parse_all default_pattern (metadata_entries ?s0 @ ?M) = (Some err, qs)"
        by simp
      from parse_bibtex_readable_err [OF bib0 f0 rec0 this]
      have 1: "parse_bibtex e False ?s0 = (None, ?s1)" using s0 by simp
      have bib1: "endswith (file_path ?s1) ''.bib''"
        and f1: "files e (file_path ?s1) = Contents content"
        and rec1: "\<forall>x\<in>set (parsed_entries ?s1). x \<noteq> None"
        using bib f s0 rec by simp_all
      have "parse_all default_pattern (metadata_entries ?s1 @ ?M) = (Some err, qs)"
        using pa Some by (simp add: parse_all_append)
      from parse_bibtex_readable_err [OF bib1 f1 rec1 this]
      have "fst (parse_bibtex e False ?s1) = None" by simp
      with 1 show ?thesis by simp
    next
      case None
      let ?P = "map ?f qs"
      let ?s1 = "?s0\<lparr>bibtex_string := Some content, metadata_entries := ?M, parsed_entries := ?P\<rparr>"
      from pa None s0 have "parse_all default_pattern (metadata_entries ?s0 @ ?M) = (None, qs)"
        by simp
      from parse_bibtex_readable_ok [OF bib0 f0 rec0 this]
      have 1: "parse_bibtex e False ?s0 = (Some ?P, ?s1)" using s0 by simp
      have bib1: "endswith (file_path ?s1) ''.bib''"
        and f1: "files e (file_path ?s1) = Contents content"
        and rec1: "\<forall>x\<in>set (parsed_entries ?s1). x \<noteq> None"
        using bib f s0 rec by simp_all
      have "parse_all default_pattern (metadata_entries ?s1 @ ?M) = (None, qs @ qs)"
        using pa None by (simp add: parse_all_append)
      from parse_bibtex_readable_ok [OF bib1 f1 rec1 this]
      have "fst (parse_bibtex e False ?s1) = Some (map ?f (?P @ qs @ qs))" by simp
      moreover have "map ?f ?P = ?P"
        by (simp add: option.map_comp comp_def with_urls_idem)
      ultimately have "fst (parse_bibtex e False ?s1) = Some (?P @ ?P @ ?P)" by simp
      with 1 show ?thesis by simp
    qed
  qed
  have env: "files e path = files e' path \<and> requests_head e = requests_head e' \<longrightarrow>
      parse_bibtex e json ?s0 = parse_bibtex e' json ?s0"
    using parse_bibtex_env [of e ?s0 e' json] s0 by simp
  from twice env show ?thesis ..
qed

theorem parse_bibtex_twice_witness:
  "fst (parse_bibtex
     \<lparr>files = (\<lambda>p. Contents ''@book{b1, title={X}}''), requests_head = (\<lambda>u. None),
      json_dumps = (\<lambda>es. [])\<rparr> False
     (snd (parse_bibtex
        \<lparr>files = (\<lambda>p. Contents ''@book{b1, title={X}}''), requests_head = (\<lambda>u. None),
         json_dumps = (\<lambda>es. [])\<rparr> False (bibtexParser_init ''refs.bib'')))) =
     Some ([Some [(''title'', Str ''X'')]] @ [Some [(''title'', Str ''X'')]] @
           [Some [(''title'', Str ''X'')]]) \<and>
   parse_bibtex
     \<lparr>files = (\<lambda>p. Contents ''@book{b1, title={X}}''), requests_head = (\<lambda>u. None),
      json_dumps = (\<lambda>es. [])\<rparr> True (bibtexParser_init ''refs.bib'') =
   parse_bibtex
     \<lparr>files = (\<lambda>p. if p = ''refs.bib'' then Contents ''@book{b1, title={X}}'' else Missing),
      requests_head = (\<lambda>u. None), json_dumps = (\<lambda>es. ''[]'')\<rparr> True
     (bibtexParser_init ''refs.bib'')"
proof -
  let ?e = "\<lparr>files = (\<lambda>p. Contents ''@book{b1, title={X}}''), requests_head = (\<lambda>u. None),
      json_dumps = (\<lambda>es. [])\<rparr>"
  let ?e' = "\<lparr>files = (\<lambda>p. if p = ''refs.bib'' then Contents ''@book{b1, title={X}}'' else Missing),
      requests_head = (\<lambda>u. None), json_dumps = (\<lambda>es. ''[]'')\<rparr>"
  have h: "files ?e ''refs.bib'' = files ?e' ''refs.bib'' \<and> requests_head ?e = requests_head ?e'"
    by simp
  have o: "fst (parse_bibtex ?e False (bibtexParser_init ''refs.bib'')) =
             Some [Some [(''title'', Str ''X'')]]"
    by code_simp
  from parse_bibtex_twice [of ?e "''refs.bib''" ?e' True] h
  have "fst (parse_bibtex ?e False (snd (parse_bibtex ?e False (bibtexParser_init ''refs.bib'')))) =
     (case fst (parse_bibtex ?e False (bibtexParser_init ''refs.bib'')) of
        None \<Rightarrow> None
      | Some records \<Rightarrow> Some (records @ records @ records))"
    and e: "parse_bibtex ?e True (bibtexParser_init ''refs.bib'') =
            parse_bibtex ?e' True (bibtexParser_init ''refs.bib'')"
    by blast+
  then have "fst (parse_bibtex ?e False (snd (parse_bibtex ?e False (bibtexParser_init ''refs.bib'')))) =
     Some ([Some [(''title'', Str ''X'')]] @ [Some [(''title'', Str ''X'')]] @
           [Some [(''title'', Str ''X'')]])"
    unfolding o by (simp only: option.case)
  then show ?thesis using e by (rule conjI)
qed


end
